theory Spec2Isabelle
  imports Main "HOL-Library.Sublist" "HOL-Library.Code_Target_Nat"
begin

section \<open>Strings and the POSIX \<^verbatim>\<open>path\<close> module\<close>

text \<open>
  The harness (\<^verbatim>\<open>getTools\<close> in \<^verbatim>\<open>src/unnamed/part_000\<close>, lines 446--807; the same
  functions appear in an earlier form at lines 28--372 and, older still, in
  \<^verbatim>\<open>src/index.js\<close>) builds every path with Node's \<^verbatim>\<open>path\<close> module and hands it to
  \<^verbatim>\<open>fs\<close> and \<^verbatim>\<open>shelljs\<close>. Those libraries are not part of the repository; they are modelled
  here after their POSIX behaviour. Strings are \<^typ>\<open>string\<close>, the separator is \<^verbatim>\<open>/\<close>.
\<close>

text \<open>\<^verbatim>\<open>String.prototype.endsWith\<close>.\<close>

definition endsWith :: "string \<Rightarrow> string \<Rightarrow> bool" where
  "endsWith s suf \<longleftrightarrow> length suf \<le> length s \<and> drop (length s - length suf) s = suf"

text \<open>\<^verbatim>\<open>s.split('/')\<close>: the pieces between separators; never the empty list.\<close>

fun split_sep :: "string \<Rightarrow> string list" where
  "split_sep [] = [[]]"
| "split_sep (c # cs) =
     (if c = CHR ''/'' then [] # split_sep cs
      else (case split_sep cs of [] \<Rightarrow> [[c]] | w # ws \<Rightarrow> (c # w) # ws))"

text \<open>\<^verbatim>\<open>pieces.join('/')\<close>.\<close>

fun join_sep :: "string list \<Rightarrow> string" where
  "join_sep [] = []"
| "join_sep [w] = w"
| "join_sep (w # v # ws) = w @ CHR ''/'' # join_sep (v # ws)"

text \<open>
  One step of \<^verbatim>\<open>normalizeString\<close>: empty and \<^verbatim>\<open>.\<close> segments vanish, \<^verbatim>\<open>..\<close> removes the
  segment before it when there is one that is not itself \<^verbatim>\<open>..\<close>, and is otherwise kept
  only if the path may climb above its start.
\<close>

definition norm_step :: "bool \<Rightarrow> string list \<Rightarrow> string \<Rightarrow> string list" where
  "norm_step allowAboveRoot res seg =
     (if seg = [] \<or> seg = ''.'' then res
      else if seg = ''..'' then
        (if res \<noteq> [] \<and> last res \<noteq> ''..'' then butlast res
         else if allowAboveRoot then res @ [''..''] else res)
      else res @ [seg])"

definition normalizeString :: "string \<Rightarrow> bool \<Rightarrow> string" where
  "normalizeString p allowAboveRoot =
     join_sep (foldl (norm_step allowAboveRoot) [] (split_sep p))"

definition isAbsolute :: "string \<Rightarrow> bool" where
  "isAbsolute p \<longleftrightarrow> p \<noteq> [] \<and> hd p = CHR ''/''"

text \<open>\<^verbatim>\<open>path.normalize\<close>.\<close>

definition normalize :: "string \<Rightarrow> string" where
  "normalize p =
     (if p = [] then ''.''
      else
        let trailingSeparator = (last p = CHR ''/'');
            q = normalizeString p (\<not> isAbsolute p)
        in if q = [] then
             (if isAbsolute p then ''/'' else if trailingSeparator then ''./'' else ''.'')
           else (if isAbsolute p then ''/'' else []) @ q
                @ (if trailingSeparator then ''/'' else []))"

text \<open>\<^verbatim>\<open>path.join\<close>: the non-empty arguments, joined by the separator, then normalised.\<close>

definition join :: "string list \<Rightarrow> string" where
  "join args =
     (let parts = filter (\<lambda>a. a \<noteq> []) args
      in if parts = [] then ''.'' else normalize (join_sep parts))"

text \<open>
  \<^verbatim>\<open>path.dirname\<close>. Node scans from the last character down to index 1: it skips trailing
  separators, then the last component, and cuts at the separator it meets next.
\<close>

definition dirname :: "string \<Rightarrow> string" where
  "dirname p =
     (if p = [] then ''.''
      else
        let hasRoot = (hd p = CHR ''/'');
            r1 = dropWhile (\<lambda>c. c = CHR ''/'') (rev (tl p));
            r2 = dropWhile (\<lambda>c. c \<noteq> CHR ''/'') r1
        in if r2 = [] then (if hasRoot then ''/'' else ''.'')
           else if hasRoot \<and> length r2 = 1 then ''//''
           else take (length r2) p)"

text \<open>
  \<^verbatim>\<open>path.extname\<close>: within the last component (trailing separators ignored), the text from
  the last dot on; empty when there is no dot, when the dot is the first character of the
  component, or when the component is \<^verbatim>\<open>..\<close>.
\<close>

definition lastComponent :: "string \<Rightarrow> string" where
  "lastComponent p =
     (case filter (\<lambda>w. w \<noteq> []) (split_sep p) of [] \<Rightarrow> [] | ws \<Rightarrow> last ws)"

definition extname :: "string \<Rightarrow> string" where
  "extname p =
     (let b = lastComponent p;
          afterDot = takeWhile (\<lambda>c. c \<noteq> CHR ''.'') (rev b)
      in if CHR ''.'' \<notin> set b then []
         else if length afterDot + 1 = length b then []
         else if b = ''..'' then []
         else CHR ''.'' # rev afterDot)"

section \<open>The file system, \<^verbatim>\<open>fs\<close> and \<^verbatim>\<open>shelljs\<close>\<close>

text \<open>
  The program's only state is the file tree. A \<^typ>\<open>string list\<close> is an absolute location,
  its segments from the root; the root itself is always a directory. The record also keeps
  the working directory of the process and a log of the library calls made so far, in call
  order.
\<close>

datatype node = File string | Dir

datatype error =
    Error string
  | ENOENT string
  | ENOTDIR string
  | EISDIR string
  | MkdirFailed string

datatype call =
    Mkdir string
  | Rm string
  | WriteFileSync string string
  | ReaddirSync string

record world =
  cwd :: string
  nodes :: "(string list \<times> node) list"
  calls :: "call list"

text \<open>
  A call either returns a value or throws; in both cases the world it leaves behind is part
  of the result, because a JavaScript exception does not undo earlier mutations.
\<close>

type_synonym 'a io = "world \<Rightarrow> (error + 'a) \<times> world"

definition io_return :: "'a \<Rightarrow> 'a io" where
  "io_return x w = (Inr x, w)"

definition io_throw :: "error \<Rightarrow> 'a io" where
  "io_throw e w = (Inl e, w)"

definition io_bind :: "'a io \<Rightarrow> ('a \<Rightarrow> 'b io) \<Rightarrow> 'b io" where
  "io_bind m f w = (case m w of (Inl e, w') \<Rightarrow> (Inl e, w') | (Inr x, w') \<Rightarrow> f x w')"

definition io_then :: "unit io \<Rightarrow> 'b io \<Rightarrow> 'b io" where
  "io_then m n = io_bind m (\<lambda>_. n)"

text \<open>\<^verbatim>\<open>_.each\<close> over an array with a callback that may throw.\<close>

fun io_each :: "('a \<Rightarrow> unit io) \<Rightarrow> 'a list \<Rightarrow> unit io" where
  "io_each f [] = io_return ()"
| "io_each f (x # xs) = io_then (f x) (io_each f xs)"

text \<open>
  Path resolution as the operating system does it for a tree without symbolic links:
  relative paths start at the working directory, \<^verbatim>\<open>..\<close> at the root stays at the root.
\<close>

definition resolve_step :: "string list \<Rightarrow> string \<Rightarrow> string list" where
  "resolve_step res seg =
     (if seg = [] \<or> seg = ''.'' then res
      else if seg = ''..'' then butlast res
      else res @ [seg])"

definition resolve :: "world \<Rightarrow> string \<Rightarrow> string list" where
  "resolve w p =
     foldl resolve_step (if isAbsolute p then [] else foldl resolve_step [] (split_sep (cwd w)))
       (split_sep p)"

definition lookup :: "world \<Rightarrow> string list \<Rightarrow> node option" where
  "lookup w k = (if k = [] then Some Dir else map_of (nodes w) k)"

definition isFile :: "world \<Rightarrow> string list \<Rightarrow> bool" where
  "isFile w k = (case lookup w k of Some (File c) \<Rightarrow> True | _ \<Rightarrow> False)"

definition isDir :: "world \<Rightarrow> string list \<Rightarrow> bool" where
  "isDir w k = (lookup w k = Some Dir)"

definition logCall :: "call \<Rightarrow> world \<Rightarrow> world" where
  "logCall c w = w\<lparr>calls := calls w @ [c]\<rparr>"

text \<open>
  \<^verbatim>\<open>shell.mkdir('-p', folder)\<close>: every missing directory on the way to \<^verbatim>\<open>folder\<close> is created.
  When a regular file lies on that way nothing can be created; what shelljs then does
  depends on its version and configuration, and the model reports it as a failure that
  leaves the tree as it was.
\<close>

definition obstructed :: "world \<Rightarrow> string list \<Rightarrow> bool" where
  "obstructed w k = list_ex (isFile w) (prefixes k)"

definition shell_mkdir_p :: "string \<Rightarrow> unit io" where
  "shell_mkdir_p folder w =
     (let k = resolve w folder; w1 = logCall (Mkdir folder) w
      in if obstructed w k then (Inl (MkdirFailed folder), w1)
         else (Inr (),
               w1\<lparr>nodes := map (\<lambda>q. (q, Dir))
                                (filter (\<lambda>q. lookup w q = None) (prefixes k))
                              @ nodes w\<rparr>))"

text \<open>\<^verbatim>\<open>shell.rm('-rf', folder)\<close>: the location and everything below it disappears.\<close>

definition shell_rm_rf :: "string \<Rightarrow> unit io" where
  "shell_rm_rf folder w =
     (let k = resolve w folder; w1 = logCall (Rm folder) w
      in (Inr (), w1\<lparr>nodes := filter (\<lambda>(q, n). \<not> prefix k q) (nodes w)\<rparr>))"

text \<open>
  \<^verbatim>\<open>fs.writeFileSync(filePath, contents)\<close>: the parent must be a directory and the target
  must not be one; an existing file is overwritten.
\<close>

definition fs_writeFileSync :: "string \<Rightarrow> string \<Rightarrow> unit io" where
  "fs_writeFileSync filePath contents w =
     (let k = resolve w filePath; w1 = logCall (WriteFileSync filePath contents) w
      in if filePath = [] then (Inl (ENOENT filePath), w1)
         else if k = [] \<or> last filePath = CHR ''/'' then (Inl (EISDIR filePath), w1)
         else (case lookup w (butlast k) of
                 None \<Rightarrow> (Inl (ENOENT filePath), w1)
               | Some (File c) \<Rightarrow> (Inl (ENOTDIR filePath), w1)
               | Some Dir \<Rightarrow>
                   if isDir w k then (Inl (EISDIR filePath), w1)
                   else (Inr (),
                         w1\<lparr>nodes := (k, File contents)
                                        # filter (\<lambda>(q, n). q \<noteq> k) (nodes w)\<rparr>)))"

text \<open>\<^verbatim>\<open>fs.readdirSync(folder)\<close>: the names of the immediate children.\<close>

definition children :: "world \<Rightarrow> string list \<Rightarrow> string list" where
  "children w k =
     remdups (map (\<lambda>(q, n). last q)
                (filter (\<lambda>(q, n). q \<noteq> [] \<and> butlast q = k) (nodes w)))"

definition fs_readdirSync :: "string \<Rightarrow> string list io" where
  "fs_readdirSync folder w =
     (let k = resolve w folder; w1 = logCall (ReaddirSync folder) w
      in case lookup w k of
           None \<Rightarrow> (Inl (ENOENT folder), w1)
         | Some (File c) \<Rightarrow> (Inl (ENOTDIR folder), w1)
         | Some Dir \<Rightarrow> (Inr (children w k), w1))"

section \<open>JavaScript objects as ordered property lists\<close>

text \<open>
  The \<^verbatim>\<open>modules\<close> argument is absent, an array of names, or an object from names to
  contents. An object is kept as its properties in creation order. Enumeration
  (\<^verbatim>\<open>Object.keys\<close>, which \<^verbatim>\<open>_.each\<close> uses) visits the keys that are array indices first, in
  ascending numeric order, and the remaining keys in creation order.
\<close>

type_synonym jsobject = "(string \<times> string) list"

datatype modules = NoModules | ModuleNames "string list" | ModuleMap jsobject

definition obj_set :: "jsobject \<Rightarrow> string \<Rightarrow> string \<Rightarrow> jsobject" where
  "obj_set obj k v =
     (if k \<in> set (map fst obj) then map (\<lambda>(k', v'). if k' = k then (k', v) else (k', v')) obj
      else obj @ [(k, v)])"

text \<open>The object built by assigning the given properties one after the other.\<close>

definition obj_of :: "(string \<times> string) list \<Rightarrow> jsobject" where
  "obj_of props = fold (\<lambda>(k, v) obj. obj_set obj k v) props []"

text \<open>\<^verbatim>\<open>_.zipObject(props, values)\<close>.\<close>

definition zipObject :: "string list \<Rightarrow> string list \<Rightarrow> jsobject" where
  "zipObject props vals = obj_of (zip props vals)"

definition digitsValue :: "string \<Rightarrow> nat" where
  "digitsValue s = foldl (\<lambda>n c. 10 * n + (of_char c - 48)) 0 s"

definition isDigit :: "char \<Rightarrow> bool" where
  "isDigit c \<longleftrightarrow> 48 \<le> (of_char c :: nat) \<and> (of_char c :: nat) \<le> 57"

definition isArrayIndex :: "string \<Rightarrow> bool" where
  "isArrayIndex s \<longleftrightarrow>
     s \<noteq> [] \<and> list_all isDigit s \<and> (if hd s = CHR ''0'' then s = ''0'' else True)
     \<and> digitsValue s < 4294967295"

definition ownEntries :: "jsobject \<Rightarrow> (string \<times> string) list" where
  "ownEntries obj =
     sort_key (\<lambda>(k, v). digitsValue k) (filter (\<lambda>(k, v). isArrayIndex k) obj)
     @ filter (\<lambda>(k, v). \<not> isArrayIndex k) obj"

section \<open>The harness: \<^verbatim>\<open>getTools\<close>\<close>

text \<open>
  \<^verbatim>\<open>getTools(_this, options)\<close>, \<^verbatim>\<open>src/unnamed/part_000\<close> lines 446--462. An option that is
  absent (or the empty string, which \<^verbatim>\<open>||\<close> also rejects) falls back to its default.
\<close>

record options =
  dataFolder :: "string option"
  appFolderOpt :: "string option"
  publicFolderOpt :: "string option"
  pluginsFolderOpt :: "string option"

record tools =
  appFolder :: string
  publicFolder :: string
  pluginsFolder :: string

definition orElse :: "string option \<Rightarrow> string \<Rightarrow> string" where
  "orElse opt d = (case opt of None \<Rightarrow> d | Some v \<Rightarrow> if v = [] then d else v)"

definition getTools :: "string \<Rightarrow> options \<Rightarrow> tools" where
  "getTools process_cwd opts =
     (let testDataFolder =
            normalize (case dataFolder opts of
                         None \<Rightarrow> join [process_cwd, ''test'', ''data'']
                       | Some d \<Rightarrow> d)
      in \<lparr>appFolder = orElse (appFolderOpt opts) (join [testDataFolder, ''src'']),
          publicFolder = orElse (publicFolderOpt opts) (join [testDataFolder, ''public'']),
          pluginsFolder = orElse (pluginsFolderOpt opts) (join [process_cwd, ''node_modules''])\<rparr>)"

text \<open>\<^verbatim>\<open>tools.createFolder\<close> (lines 548--550) and \<^verbatim>\<open>tools.deleteFolder\<close> (lines 561--563).\<close>

definition createFolder :: "string \<Rightarrow> unit io" where
  "createFolder folder = shell_mkdir_p folder"

definition deleteFolder :: "string \<Rightarrow> unit io" where
  "deleteFolder folder = shell_rm_rf folder"

text \<open>\<^verbatim>\<open>tools.writeFile\<close>, lines 475--481.\<close>

definition writeFile :: "string \<Rightarrow> string \<Rightarrow> unit io" where
  "writeFile filePath contents =
     (let dir = dirname filePath
      in io_then (createFolder dir) (fs_writeFileSync filePath contents))"

text \<open>
  The older \<^verbatim>\<open>tools.writeFile\<close> of \<^verbatim>\<open>src/index.js\<close>, lines 52--54 (and its promise
  counterpart, lines 381--383): the write alone.
\<close>

definition writeFile_index :: "string \<Rightarrow> string \<Rightarrow> unit io" where
  "writeFile_index filePath contents = fs_writeFileSync filePath contents"

definition readmeText :: string where
  "readmeText = ''The presence of this file ensures that node-findit works''"

text \<open>\<^verbatim>\<open>tools.createTestFolders\<close>, lines 571--579.\<close>

definition createTestFolders :: "tools \<Rightarrow> unit io" where
  "createTestFolders t =
     io_then (createFolder (appFolder t))
    (io_then (createFolder (publicFolder t))
             (writeFile (join [appFolder t, ''README'']) readmeText))"

text \<open>\<^verbatim>\<open>tools.deleteTestFolders\<close>, lines 587--600.\<close>

definition testPluginSuffix :: string where
  "testPluginSuffix = ''_TESTPLUGIN''"

definition deleteTestFolders :: "tools \<Rightarrow> unit io" where
  "deleteTestFolders t =
     io_then (deleteFolder (publicFolder t))
    (io_then (deleteFolder (appFolder t))
    (io_bind (fs_readdirSync (pluginsFolder t)) (\<lambda>files.
       let plugins = filter (\<lambda>file. endsWith file testPluginSuffix) files
       in io_each (\<lambda>plugin. deleteFolder (join [pluginsFolder t, plugin])) plugins)))"

text \<open>
  \<^verbatim>\<open>__createModule\<close> inside \<^verbatim>\<open>tools.createModules\<close>, lines 672--685: the name of the file,
  and the two calls that materialise it.
\<close>

definition moduleFileName :: "string \<Rightarrow> string \<Rightarrow> string" where
  "moduleFileName srcFolder moduleName =
     (let extName = extname moduleName;
          extName = (if length extName = 0 then ''.js'' else extName)
      in join [srcFolder, moduleName] @ extName)"

definition createModule :: "string \<Rightarrow> string \<Rightarrow> string \<Rightarrow> unit io" where
  "createModule srcFolder moduleName moduleContent =
     (let fileName = moduleFileName srcFolder moduleName;
          folderPath = dirname fileName
      in io_then (createFolder folderPath) (writeFile fileName moduleContent))"

text \<open>
  The older \<^verbatim>\<open>__createModule\<close> of \<^verbatim>\<open>src/index.js\<close>, lines 223--230 and 554--562, names the
  file by appending \<^verbatim>\<open>.js\<close> to every module name.
\<close>

definition moduleFileName_index :: "string \<Rightarrow> string \<Rightarrow> string" where
  "moduleFileName_index srcFolder moduleName = join [srcFolder, moduleName] @ ''.js''"

text \<open>\<^verbatim>\<open>tools.createModules\<close>, lines 661--693.\<close>

definition defaultModuleContent :: "string \<Rightarrow> string" where
  "defaultModuleContent defaultContent =
     ''module.exports='' @ [CHR 0x22] @ defaultContent @ [CHR 0x22] @ '';''"

definition moduleEntries :: "modules \<Rightarrow> string \<Rightarrow> (string \<times> string) list" where
  "moduleEntries ms defaultContent =
     (case ms of
        NoModules \<Rightarrow> []
      | ModuleNames names \<Rightarrow>
          ownEntries (zipObject names (map (\<lambda>moduleName. defaultModuleContent defaultContent) names))
      | ModuleMap props \<Rightarrow> ownEntries (obj_of props))"

definition createModules :: "string \<Rightarrow> modules \<Rightarrow> string \<Rightarrow> unit io" where
  "createModules srcFolder ms defaultContent =
     (case ms of
        NoModules \<Rightarrow> io_return ()
      | _ \<Rightarrow> io_each (\<lambda>(moduleName, moduleContent). createModule srcFolder moduleName moduleContent)
                    (moduleEntries ms defaultContent))"

text \<open>\<^verbatim>\<open>tools.createPluginModules\<close>, lines 615--635.\<close>

definition packageJson :: "string \<Rightarrow> string" where
  "packageJson name =
     ''{ '' @ [CHR 0x22] @ ''name'' @ [CHR 0x22] @ '': '' @ [CHR 0x22] @ name @ [CHR 0x22]
     @ '', '' @ [CHR 0x22] @ ''version'' @ [CHR 0x22] @ '': '' @ [CHR 0x22] @ ''0.0.1''
     @ [CHR 0x22] @ '' }''"

definition pluginScaffold :: "tools \<Rightarrow> string \<Rightarrow> unit io" where
  "pluginScaffold t name =
     (let pluginFolderPath = join [pluginsFolder t, name];
          publicFolderPath = join [pluginFolderPath, ''public''];
          srcFolderPath = join [pluginFolderPath, ''src'']
      in io_then (createFolder pluginFolderPath)
        (io_then (writeFile (join [pluginFolderPath, ''package.json'']) (packageJson name))
        (io_then (writeFile (join [pluginFolderPath, ''index.js'']) ''module.exports = {}'')
        (io_then (createFolder publicFolderPath)
        (io_then (createFolder srcFolderPath)
                 (writeFile (join [srcFolderPath, ''README'']) readmeText))))))"

definition createPluginModules :: "tools \<Rightarrow> string \<Rightarrow> modules \<Rightarrow> unit io" where
  "createPluginModules t name ms =
     (if \<not> endsWith name testPluginSuffix
      then io_throw (Error ''Test plugin name has incorrect suffix'')
      else io_then (pluginScaffold t name)
                   (createModules (join [join [pluginsFolder t, name], ''src'']) ms name))"

text \<open>\<^verbatim>\<open>tools.createAppModules\<close>, lines 645--647.\<close>

definition createAppModules :: "tools \<Rightarrow> modules \<Rightarrow> unit io" where
  "createAppModules t ms = createModules (appFolder t) ms ''app''"

section \<open>The coroutine bridge: \<^verbatim>\<open>co\<close>, \<^verbatim>\<open>awaitAsync\<close>, \<^verbatim>\<open>mustThrow\<close>\<close>

text \<open>
  A promise is identified with the way it eventually settles, if it ever does. A thrown
  value is an \<^verbatim>\<open>Error\<close> of some class with a message, or any other value.
\<close>

datatype jsval = Undefined | Str string | Num int

datatype errclass = PlainError | AssertionError | TypeError

datatype exn = Exn errclass string | NonError jsval

datatype promise = Fulfilled jsval | Rejected exn | Forever

text \<open>
  A running generator either returns, throws, or is suspended at a \<^verbatim>\<open>yield\<close>; a suspended
  one carries what it yielded and how it goes on when resumed with a value
  (\<^verbatim>\<open>gen.next(v)\<close>) or with an exception (\<^verbatim>\<open>gen.throw(e)\<close>). The yielded thing is a promise,
  another generator function, or a value that \<^verbatim>\<open>co\<close> cannot wait for.
\<close>

datatype gen =
    Return jsval
  | Throw exn
  | YieldPromise promise "jsval \<Rightarrow> gen" "exn \<Rightarrow> gen"
  | YieldGen gen "jsval \<Rightarrow> gen" "exn \<Rightarrow> gen"
  | YieldOther jsval "jsval \<Rightarrow> gen" "exn \<Rightarrow> gen"

definition notYieldable :: exn where
  "notYieldable =
     Exn TypeError ''You may only yield a function, promise, generator, array, or object''"

text \<open>
  \<^verbatim>\<open>co(fn)\<close>: drive the generator to its end, resuming it with the outcome of each thing it
  yields; the returned promise settles with the generator's return value or with the
  exception that escapes it.
\<close>

primrec co :: "gen \<Rightarrow> promise" where
  "co (Return v) = Fulfilled v"
| "co (Throw e) = Rejected e"
| "co (YieldPromise p onValue onError) =
     (case p of
        Fulfilled v \<Rightarrow> co (onValue v)
      | Rejected e \<Rightarrow> co (onError e)
      | Forever \<Rightarrow> Forever)"
| "co (YieldGen g onValue onError) =
     (case co g of
        Fulfilled v \<Rightarrow> co (onValue v)
      | Rejected e \<Rightarrow> co (onError e)
      | Forever \<Rightarrow> Forever)"
| "co (YieldOther x onValue onError) = co (onError notYieldable)"







section \<open>Where a path lies\<close>

text \<open>A path lies strictly inside a folder when its location is a proper descendant.\<close>

definition inside :: "world \<Rightarrow> string \<Rightarrow> string \<Rightarrow> bool" where
  "inside w folder p = strict_prefix (resolve w folder) (resolve w p)"

section \<open>Notions used in the proofs\<close>

text \<open>
  A segment that survives normalisation (\<^verbatim>\<open>.\<close> and the empty segment do not), and a segment
  that names an entry (\<^verbatim>\<open>..\<close> does not either).
\<close>

definition keptSeg :: "string \<Rightarrow> bool" where
  "keptSeg s \<longleftrightarrow> s \<noteq> [] \<and> s \<noteq> ''.''"

definition nameSeg :: "string \<Rightarrow> bool" where
  "nameSeg s \<longleftrightarrow> s \<noteq> [] \<and> s \<noteq> ''.'' \<and> s \<noteq> ''..''"

text \<open>Where resolution of a path starts, and the segments \<^verbatim>\<open>path.normalize\<close> keeps of it.\<close>

definition base_of :: "world \<Rightarrow> string \<Rightarrow> string list" where
  "base_of w p = (if isAbsolute p then [] else foldl resolve_step [] (split_sep (cwd w)))"

definition normSegs :: "string \<Rightarrow> string list" where
  "normSegs p = foldl (norm_step (\<not> isAbsolute p)) [] (split_sep p)"


text \<open>The library calls \<^verbatim>\<open>__createModule\<close> makes for one entry, in the order it makes them.\<close>

definition moduleCalls :: "string \<Rightarrow> string \<times> string \<Rightarrow> call list" where
  "moduleCalls srcFolder entry =
     (let fileName = moduleFileName srcFolder (fst entry)
      in [Mkdir (dirname fileName), Mkdir (dirname fileName), WriteFileSync fileName (snd entry)])"

section \<open>Unfolding rules\<close>

lemmas path_defs = endsWith_def normalizeString_def norm_step_def isAbsolute_def normalize_def
  join_def dirname_def lastComponent_def extname_def

lemmas io_defs = io_return_def io_throw_def io_bind_def io_then_def

lemmas fs_defs = resolve_step_def resolve_def lookup_def isFile_def isDir_def logCall_def
  obstructed_def shell_mkdir_p_def shell_rm_rf_def fs_writeFileSync_def children_def
  fs_readdirSync_def

lemmas obj_defs = obj_set_def obj_of_def zipObject_def digitsValue_def isDigit_def
  isArrayIndex_def ownEntries_def

lemmas tool_defs = createFolder_def deleteFolder_def writeFile_def writeFile_index_def
  readmeText_def createTestFolders_def testPluginSuffix_def deleteTestFolders_def
  moduleFileName_def createModule_def moduleFileName_index_def defaultModuleContent_def
  moduleEntries_def createModules_def packageJson_def pluginScaffold_def
  createPluginModules_def createAppModules_def orElse_def getTools_def

section \<open>Splitting, normalising and resolving paths\<close>

lemma split_sep_not_Nil [simp]: "split_sep p \<noteq> []"
  by (induction p) (auto split: list.splits)

lemma split_sep_append: "split_sep (a @ CHR ''/'' # b) = split_sep a @ split_sep b"
  by (induction a) (auto split: list.splits)

lemma split_sep_slash_free: "w \<in> set (split_sep p) \<Longrightarrow> CHR ''/'' \<notin> set w"
  by (induction p arbitrary: w) (auto split: list.splits if_splits)

lemma split_sep_single: "CHR ''/'' \<notin> set a \<Longrightarrow> split_sep a = [a]"
  by (induction a) auto

lemma split_sep_suffix:
  "CHR ''/'' \<notin> set e \<Longrightarrow> split_sep (a @ e) = butlast (split_sep a) @ [last (split_sep a) @ e]"
proof (induction a)
  case Nil
  then show ?case by (simp add: split_sep_single)
next
  case (Cons c a)
  then show ?case
    by (cases "split_sep a") (auto split: list.splits)
qed

lemma split_join_sep:
  "ws \<noteq> [] \<Longrightarrow> \<forall>w \<in> set ws. CHR ''/'' \<notin> set w \<Longrightarrow> split_sep (join_sep ws) = ws"
proof (induction ws rule: join_sep.induct)
  case 1
  then show ?case by simp
next
  case (2 w)
  then show ?case by (simp add: split_sep_single)
next
  case (3 w v ws)
  then show ?case by (simp add: split_sep_append split_sep_single)
qed

lemma join_sep_Nil_iff: "\<forall>w \<in> set ws. w \<noteq> [] \<Longrightarrow> join_sep ws = [] \<longleftrightarrow> ws = []"
  by (induction ws rule: join_sep.induct) auto

lemma hd_join_sep: "ws \<noteq> [] \<Longrightarrow> hd ws \<noteq> [] \<Longrightarrow> hd (join_sep ws) = hd (hd ws)"
  by (induction ws rule: join_sep.induct) auto

lemma resolve_step_skip [simp]:
  "resolve_step x [] = x" "resolve_step x ''.'' = x" "resolve_step x ''..'' = butlast x"
  by (simp_all add: resolve_step_def)

lemma resolve_step_name:
  "s \<noteq> [] \<Longrightarrow> s \<noteq> ''.'' \<Longrightarrow> s \<noteq> ''..'' \<Longrightarrow> resolve_step x s = x @ [s]"
  by (simp add: resolve_step_def)

lemma norm_step_skip: "x = [] \<or> x = ''.'' \<Longrightarrow> norm_step a acc x = acc"
  by (auto simp: norm_step_def)

lemma norm_step_pop:
  "acc \<noteq> [] \<Longrightarrow> last acc \<noteq> ''..'' \<Longrightarrow> norm_step a acc ''..'' = butlast acc"
  by (simp add: norm_step_def)

lemma norm_step_climb:
  "acc = [] \<or> last acc = ''..'' \<Longrightarrow> norm_step True acc ''..'' = acc @ [''..'']"
  by (auto simp: norm_step_def)

lemma norm_step_stay:
  "acc = [] \<or> last acc = ''..'' \<Longrightarrow> norm_step False acc ''..'' = acc"
  by (auto simp: norm_step_def)

lemma norm_step_name:
  "x \<noteq> [] \<Longrightarrow> x \<noteq> ''.'' \<Longrightarrow> x \<noteq> ''..'' \<Longrightarrow> norm_step a acc x = acc @ [x]"
  by (simp add: norm_step_def)

lemma norm_step_subset:
  "set (norm_step allow acc s) \<subseteq> insert s (set acc)"
  by (auto simp: norm_step_def dest: in_set_butlastD)

lemma norm_fold_subset:
  "set (foldl (norm_step allow) acc ps) \<subseteq> set acc \<union> set ps"
proof (induction ps arbitrary: acc)
  case Nil
  then show ?case by simp
next
  case (Cons p ps)
  have "set (foldl (norm_step allow) (norm_step allow acc p) ps)
          \<subseteq> set (norm_step allow acc p) \<union> set ps"
    by (rule Cons.IH)
  then show ?case
    using norm_step_subset [of allow acc p] by auto
qed


lemma norm_fold_inv:
  assumes "allow \<or> base = []"
  shows "foldl resolve_step base (foldl (norm_step allow) [] ps) = foldl resolve_step base ps
         \<and> list_all keptSeg (foldl (norm_step allow) [] ps)
         \<and> (allow \<or> ''..'' \<notin> set (foldl (norm_step allow) [] ps))"
proof (induction ps rule: rev_induct)
  case Nil
  then show ?case by simp
next
  case (snoc x ps)
  define acc where "acc = foldl (norm_step allow) [] ps"
  have eq: "foldl resolve_step base acc = foldl resolve_step base ps"
    and ok: "list_all keptSeg acc"
    and up: "allow \<or> ''..'' \<notin> set acc"
    using snoc by (simp_all add: acc_def)
  have step: "foldl (norm_step allow) [] (ps @ [x]) = norm_step allow acc x"
    by (simp add: acc_def)
  have rstep: "foldl resolve_step base (ps @ [x]) = resolve_step (foldl resolve_step base acc) x"
    by (simp add: eq)
  show ?case
  proof (cases "x = [] \<or> x = ''.''")
    case True
    then have n: "norm_step allow acc x = acc" by (rule norm_step_skip)
    have "resolve_step (foldl resolve_step base acc) x = foldl resolve_step base acc"
      using True by (auto simp: resolve_step_def)
    then show ?thesis unfolding step rstep n using ok up by simp
  next
    case kept: False
    show ?thesis
    proof (cases "x = ''..''")
      case False
      with kept have n: "norm_step allow acc x = acc @ [x]" by (simp add: norm_step_name)
      have k: "keptSeg x" using kept by (simp add: keptSeg_def)
      show ?thesis unfolding step rstep n using ok up k False by simp
    next
      case dd: True
      show ?thesis
      proof (cases "acc \<noteq> [] \<and> last acc \<noteq> ''..''")
        case True
        then have n: "norm_step allow acc x = butlast acc" by (simp add: dd norm_step_pop)
        from True obtain ys y where acc: "acc = ys @ [y]" and y: "y \<noteq> ''..''"
          by (metis append_butlast_last_id)
        from ok acc have y': "y \<noteq> []" "y \<noteq> ''.''" by (simp_all add: keptSeg_def)
        have "foldl resolve_step base acc = foldl resolve_step base ys @ [y]"
          using y y' by (simp add: acc resolve_step_name)
        then have r: "resolve_step (foldl resolve_step base acc) x = foldl resolve_step base ys"
          by (simp add: dd)
        have b: "butlast acc = ys" by (simp add: acc)
        show ?thesis unfolding step rstep n r b using ok up acc by auto
      next
        case False
        then have e: "acc = [] \<or> last acc = ''..''" by blast
        show ?thesis
        proof (cases allow)
          case True
          with e have n: "norm_step allow acc x = acc @ [''..'']" by (simp add: dd norm_step_climb)
          have k: "keptSeg ''..''" by (simp add: keptSeg_def)
          show ?thesis unfolding step rstep n using ok k True by (simp add: dd)
        next
          case na: False
          with e have n: "norm_step allow acc x = acc" by (simp add: dd norm_step_stay)
          from na up have "''..'' \<notin> set acc" by simp
          then have a: "acc = []" using e by (cases acc rule: rev_cases) auto
          from na assms have b: "base = []" by simp
          show ?thesis unfolding step rstep n using na by (simp add: a b dd)
        qed
      qed
    qed
  qed
qed

lemma resolve_alt: "resolve w p = foldl resolve_step (base_of w p) (split_sep p)"
  by (simp add: resolve_def base_of_def)


lemma normSegs_props:
  "foldl resolve_step (base_of w p) (normSegs p) = resolve w p"
  "list_all keptSeg (normSegs p)"
  "s \<in> set (normSegs p) \<Longrightarrow> CHR ''/'' \<notin> set s"
proof -
  have cond: "(\<not> isAbsolute p) \<or> base_of w p = []" by (auto simp: base_of_def)
  note inv = norm_fold_inv [OF cond, of "split_sep p", folded normSegs_def]
  show "foldl resolve_step (base_of w p) (normSegs p) = resolve w p"
    using inv by (simp add: resolve_alt)
  show "list_all keptSeg (normSegs p)" using inv by simp
  assume "s \<in> set (normSegs p)"
  then have "s \<in> set (split_sep p)"
    using norm_fold_subset [of "\<not> isAbsolute p" "[]" "split_sep p"] by (auto simp: normSegs_def)
  then show "CHR ''/'' \<notin> set s" by (rule split_sep_slash_free)
qed

lemma normalize_shape:
  assumes "p \<noteq> []"
  shows "normalize p =
      (if normSegs p = [] then
         (if isAbsolute p then ''/'' else if last p = CHR ''/'' then ''./'' else ''.'')
       else (if isAbsolute p then ''/'' else []) @ join_sep (normSegs p)
            @ (if last p = CHR ''/'' then ''/'' else []))"
proof -
  have ne: "\<forall>s \<in> set (normSegs p). s \<noteq> []"
    using normSegs_props(2) [of p] by (auto simp: list_all_iff keptSeg_def)
  have q: "normalizeString p (\<not> isAbsolute p) = join_sep (normSegs p)"
    by (simp add: normalizeString_def normSegs_def)
  have z: "join_sep (normSegs p) = [] \<longleftrightarrow> normSegs p = []"
    using ne by (rule join_sep_Nil_iff)
  show ?thesis
  proof (cases "isAbsolute p")
    case True
    with q have "normalizeString p False = join_sep (normSegs p)" by simp
    with True assms z show ?thesis by (simp add: normalize_def Let_def)
  next
    case False
    with q have "normalizeString p True = join_sep (normSegs p)" by simp
    with False assms z show ?thesis by (simp add: normalize_def Let_def)
  qed
qed

lemma split_normalize:
  assumes "p \<noteq> []" "normSegs p \<noteq> []"
  shows "split_sep (normalize p) =
           (if isAbsolute p then [[]] else []) @ normSegs p
           @ (if last p = CHR ''/'' then [[]] else [])"
    and "isAbsolute (normalize p) = isAbsolute p"
proof -
  let ?segs = "normSegs p"
  have ne: "\<forall>s \<in> set ?segs. s \<noteq> []"
    using normSegs_props(2) [of p] by (auto simp: list_all_iff keptSeg_def)
  have sf: "\<forall>s \<in> set ?segs. CHR ''/'' \<notin> set s"
    using normSegs_props(3) by blast
  have jn: "join_sep ?segs \<noteq> []" using ne assms(2) by (simp add: join_sep_Nil_iff)
  have hdj: "hd (join_sep ?segs) \<noteq> CHR ''/''"
  proof -
    have "hd ?segs \<in> set ?segs" using assms(2) by simp
    then have "hd ?segs \<noteq> []" "CHR ''/'' \<notin> set (hd ?segs)" using ne sf by auto
    then show ?thesis
      using assms(2) by (cases "hd ?segs") (auto simp: hd_join_sep)
  qed
  have sp: "split_sep (join_sep ?segs) = ?segs"
    using assms(2) sf by (rule split_join_sep)
  have sp2: "split_sep (join_sep ?segs @ ''/'') = ?segs @ [[]]"
    using split_sep_append [of "join_sep ?segs" "[]"] sp by simp
  show "split_sep (normalize p) =
           (if isAbsolute p then [[]] else []) @ ?segs @ (if last p = CHR ''/'' then [[]] else [])"
    using assms sp sp2 by (simp add: normalize_shape)
  show "isAbsolute (normalize p) = isAbsolute p"
    using assms jn hdj by (cases "join_sep ?segs") (auto simp: normalize_shape isAbsolute_def)
qed



lemma split_sep_last_decomp:
  "(CHR ''/'' \<notin> set p \<and> split_sep p = [p])
   \<or> (\<exists>a. p = a @ CHR ''/'' # last (split_sep p) \<and> split_sep p = split_sep a @ [last (split_sep p)])"
proof (induction p)
  case Nil
  then show ?case by simp
next
  case (Cons c p)
  show ?case
  proof (cases "c = CHR ''/''")
    case True
    from Cons show ?thesis
    proof
      assume h: "CHR ''/'' \<notin> set p \<and> split_sep p = [p]"
      have "c # p = [] @ CHR ''/'' # last (split_sep (c # p))"
        using True h by simp
      moreover have "split_sep (c # p) = split_sep [] @ [last (split_sep (c # p))]"
        using True h by simp
      ultimately show ?thesis by blast
    next
      assume "\<exists>a. p = a @ CHR ''/'' # last (split_sep p)
                \<and> split_sep p = split_sep a @ [last (split_sep p)]"
      then obtain a where a: "p = a @ CHR ''/'' # last (split_sep p)"
        and s: "split_sep p = split_sep a @ [last (split_sep p)]" by blast
      have l: "last (split_sep (c # p)) = last (split_sep p)" using True by simp
      have "c # p = (c # a) @ CHR ''/'' # last (split_sep (c # p))"
        using a l by simp
      moreover have "split_sep (c # p) = split_sep (c # a) @ [last (split_sep (c # p))]"
        using True s l by simp
      ultimately show ?thesis by blast
    qed
  next
    case False
    from Cons show ?thesis
    proof
      assume h: "CHR ''/'' \<notin> set p \<and> split_sep p = [p]"
      then show ?thesis using False by simp
    next
      assume "\<exists>a. p = a @ CHR ''/'' # last (split_sep p)
                \<and> split_sep p = split_sep a @ [last (split_sep p)]"
      then obtain a where a: "p = a @ CHR ''/'' # last (split_sep p)"
        and s: "split_sep p = split_sep a @ [last (split_sep p)]" by blast
      have l: "last (split_sep (c # p)) = last (split_sep p)"
        using False s by (cases "split_sep p") (auto split: list.splits)
      have "c # p = (c # a) @ CHR ''/'' # last (split_sep (c # p))"
        using a l by simp
      moreover have "split_sep (c # p) = split_sep (c # a) @ [last (split_sep (c # p))]"
      proof -
        have "split_sep (c # p) = split_sep ((c # a) @ CHR ''/'' # last (split_sep p))"
          using a by simp
        also have "\<dots> = split_sep (c # a) @ split_sep (last (split_sep p))"
          by (rule split_sep_append)
        also have "split_sep (last (split_sep p)) = [last (split_sep p)]"
          by (rule split_sep_single) (use split_sep_slash_free [of "last (split_sep p)" p] in simp)
        finally show ?thesis using l by simp
      qed
      ultimately show ?thesis by blast
    qed
  qed
qed

lemma last_split_slash_free: "CHR ''/'' \<notin> set (last (split_sep p))"
  by (rule split_sep_slash_free [of _ p]) simp

lemma dirname_of_join:
  assumes "l \<noteq> []" "CHR ''/'' \<notin> set l" "a \<noteq> []"
  shows "dirname (a @ CHR ''/'' # l) = (if a = ''/'' then ''//'' else a)"
proof -
  let ?p = "a @ CHR ''/'' # l"
  have t: "tl ?p = tl a @ CHR ''/'' # l" using assms(3) by simp
  have r1: "dropWhile (\<lambda>c. c = CHR ''/'') (rev (tl ?p)) = rev l @ CHR ''/'' # rev (tl a)"
    using assms(1,2) unfolding t by (cases l rule: rev_cases) auto
  have r2: "dropWhile (\<lambda>c. c \<noteq> CHR ''/'') (rev l @ CHR ''/'' # rev (tl a))
              = CHR ''/'' # rev (tl a)"
  proof -
    have "\<forall>c \<in> set (rev l). c \<noteq> CHR ''/''" using assms(2) by auto
    then have "dropWhile (\<lambda>c. c \<noteq> CHR ''/'') (rev l) = []"
      by (simp add: dropWhile_eq_Nil_conv)
    moreover have "dropWhile (\<lambda>c. c \<noteq> CHR ''/'') (rev l @ CHR ''/'' # rev (tl a))
        = dropWhile (\<lambda>c. c \<noteq> CHR ''/'') (CHR ''/'' # rev (tl a))"
      using assms(2) by (intro dropWhile_append2) auto
    ultimately show ?thesis by simp
  qed
  have len: "length (CHR ''/'' # rev (tl a)) = length a" using assms(3) by simp
  have hdp: "hd ?p = hd a" using assms(3) by simp
  have tk: "take (length a) ?p = a" by simp
  have one: "hd a = CHR ''/'' \<and> length a = 1 \<longleftrightarrow> a = ''/''"
    using assms(3) by (cases a) auto
  show ?thesis
    unfolding dirname_def Let_def r1 r2 len hdp tk using one by auto
qed

lemma dirname_no_slash:
  assumes "p \<noteq> []" "CHR ''/'' \<notin> set p"
  shows "dirname p = ''.''"
proof -
  have a: "dropWhile (\<lambda>c. c = CHR ''/'') (rev (tl p)) = rev (tl p)"
    using assms by (cases "rev (tl p)") (auto dest: list.set_sel(2) simp: in_set_conv_decomp)
  have "\<forall>c \<in> set (rev (tl p)). c \<noteq> CHR ''/''"
    using assms by (auto dest: list.set_sel(2))
  then have b: "dropWhile (\<lambda>c. c \<noteq> CHR ''/'') (rev (tl p)) = []"
    by (simp add: dropWhile_eq_Nil_conv)
  have "hd p \<noteq> CHR ''/''" using assms by (cases p) auto
  then show ?thesis unfolding dirname_def Let_def a b using assms(1) by simp
qed

lemma dirname_root_child:
  assumes "l \<noteq> []" "CHR ''/'' \<notin> set l"
  shows "dirname (CHR ''/'' # l) = ''/''"
proof -
  have a: "dropWhile (\<lambda>c. c = CHR ''/'') (rev l) = rev l"
    using assms by (cases l rule: rev_cases) auto
  have "\<forall>c \<in> set (rev l). c \<noteq> CHR ''/''" using assms by auto
  then have b: "dropWhile (\<lambda>c. c \<noteq> CHR ''/'') (rev l) = []"
    by (simp add: dropWhile_eq_Nil_conv)
  show ?thesis unfolding dirname_def Let_def by (simp add: a b)
qed


lemma resolve_step_nameSeg: "nameSeg s \<Longrightarrow> resolve_step x s = x @ [s]"
  by (simp add: nameSeg_def resolve_step_name)

lemma base_of_append: "a \<noteq> [] \<Longrightarrow> base_of w (a @ b) = base_of w a"
  by (cases a) (simp_all add: base_of_def isAbsolute_def)


lemma foldl_resolve_names: "list_all nameSeg xs \<Longrightarrow> foldl resolve_step x xs = x @ xs"
  by (induction xs arbitrary: x) (simp_all add: resolve_step_nameSeg)

lemma resolve_empty: "resolve w [] = foldl resolve_step [] (split_sep (cwd w))"
  by (simp add: resolve_def isAbsolute_def)



lemma norm_fold_no_dotdot:
  "''..'' \<notin> set ps \<Longrightarrow> foldl (norm_step al) acc ps = acc @ filter keptSeg ps"
proof (induction ps arbitrary: acc)
  case Nil
  then show ?case by simp
next
  case (Cons p ps)
  then have p: "p \<noteq> ''..''" and ps: "''..'' \<notin> set ps" by auto
  have "norm_step al acc p = (if keptSeg p then acc @ [p] else acc)"
    using p by (auto simp: norm_step_def keptSeg_def)
  then show ?case using Cons.IH [OF ps] by simp
qed

lemma isAbsolute_append: "a \<noteq> [] \<Longrightarrow> isAbsolute (a @ b) = isAbsolute a"
  by (cases a) (simp_all add: isAbsolute_def)

lemma normSegs_join:
  assumes "a \<noteq> []" "''..'' \<notin> set (split_sep b)"
  shows "normSegs (a @ CHR ''/'' # b) = normSegs a @ filter keptSeg (split_sep b)"
  using assms
  by (simp add: normSegs_def split_sep_append isAbsolute_append norm_fold_no_dotdot)

lemma last_split_sep_Nil:
  assumes "p \<noteq> []"
  shows "last (split_sep p) = [] \<longleftrightarrow> last p = CHR ''/''"
proof -
  define l where "l = last (split_sep p)"
  have sf: "CHR ''/'' \<notin> set l" unfolding l_def by (rule last_split_slash_free)
  from split_sep_last_decomp [of p]
  have "(CHR ''/'' \<notin> set p \<and> split_sep p = [p]) \<or> (\<exists>a. p = a @ CHR ''/'' # l)"
    by (auto simp: l_def)
  then have "l = [] \<longleftrightarrow> last p = CHR ''/''"
  proof
    assume h: "CHR ''/'' \<notin> set p \<and> split_sep p = [p]"
    then have lp: "l = p" by (simp add: l_def)
    have "last p \<in> set p" using assms by simp
    with h have "last p \<noteq> CHR ''/''" by metis
    with lp assms show ?thesis by simp
  next
    assume "\<exists>a. p = a @ CHR ''/'' # l"
    then obtain a where a: "p = a @ CHR ''/'' # l" by blast
    show ?thesis
    proof (cases "l = []")
      case True
      then show ?thesis using a by simp
    next
      case False
      then have "last p = last l" using a by simp
      moreover have "last l \<in> set l" using False by simp
      ultimately have "last p \<noteq> CHR ''/''" using sf by metis
      with False show ?thesis by simp
    qed
  qed
  then show ?thesis by (simp add: l_def)
qed

lemma kept_not_dotdot_name:
  "''..'' \<notin> set ps \<Longrightarrow> list_all nameSeg (filter keptSeg ps)"
  by (induction ps) (auto simp: nameSeg_def keptSeg_def)

lemma split_sep_Nil_names: "filter keptSeg (split_sep []) = []"
  by (simp add: keptSeg_def)

lemma name_append_ext:
  assumes "nameSeg n" "e \<noteq> []"
  shows "nameSeg (n @ e)"
proof -
  have n: "n \<noteq> []" "n \<noteq> ''.''" using assms(1) by (simp_all add: nameSeg_def)
  have len: "length (n @ e) \<ge> 2" using n(1) assms(2)
    by (cases n; cases e) simp_all
  have a: "n @ e \<noteq> []" using n(1) by simp
  have b: "n @ e \<noteq> ''.''"
  proof
    assume "n @ e = ''.''"
    then have "length (n @ e) = 1" by simp
    with len show False by simp
  qed
  have "n @ e \<noteq> ''..''"
  proof
    assume h: "n @ e = ''..''"
    then have "length n + length e = 2" by (metis length_append length_Cons list.size(3) numeral_2_eq_2)
    then have "length n = 1" using n(1) assms(2) by (cases n; cases e) auto
    then obtain c where "n = [c]" by (cases n) auto
    with h have "n = ''.''" by simp
    with n(2) show False by simp
  qed
  with a b show ?thesis by (simp add: nameSeg_def)
qed

lemma moduleFile_resolve:
  assumes r: "r \<noteq> []"
    and dd: "''..'' \<notin> set (split_sep m)"
    and nm: "filter keptSeg (split_sep m) \<noteq> []"
    and e: "e \<noteq> []" "CHR ''/'' \<notin> set e" "e \<noteq> ''..''"
  shows "resolve w (join [r, m] @ e) =
           resolve w r @
           (if last m = CHR ''/'' then filter keptSeg (split_sep m) @ (if e = ''.'' then [] else [e])
            else butlast (filter keptSeg (split_sep m)) @ [last (filter keptSeg (split_sep m)) @ e])"
proof -
  define names where "names = filter keptSeg (split_sep m)"
  define p where "p = r @ CHR ''/'' # m"
  have mne: "m \<noteq> []" using nm by (auto simp: keptSeg_def)
  have pne: "p \<noteq> []" by (simp add: p_def)
  have j: "join [r, m] = normalize p" using r mne by (simp add: join_def p_def)
  have segs: "normSegs p = normSegs r @ names"
    unfolding p_def names_def using r dd by (rule normSegs_join)
  then have sne: "normSegs p \<noteq> []" using nm by (simp add: names_def)
  have lastp: "last p = last m" using mne by (simp add: p_def)
  have absp: "isAbsolute p = isAbsolute r" unfolding p_def using r by (rule isAbsolute_append)
  have sp: "split_sep (normalize p) =
              (if isAbsolute r then [[]] else []) @ (normSegs r @ names)
              @ (if last m = CHR ''/'' then [[]] else [])"
    using split_normalize(1) [OF pne sne] by (simp add: segs lastp absp)
  have nz: "normalize p \<noteq> []"
    by (simp add: normalize_def Let_def)
  have base: "base_of w (normalize p @ e) = base_of w r"
    using split_normalize(2) [OF pne sne] absp nz
    by (simp add: base_of_def isAbsolute_append)
  have names: "list_all nameSeg names" unfolding names_def using dd by (rule kept_not_dotdot_name)
  have nne: "names \<noteq> []" using nm by (simp add: names_def)
  have rr: "foldl resolve_step (base_of w r) ((if isAbsolute r then [[]] else []) @ normSegs r)
              = resolve w r"
    using normSegs_props(1) [of w r] by simp
  have sf: "split_sep (normalize p @ e)
             = butlast (split_sep (normalize p)) @ [last (split_sep (normalize p)) @ e]"
    using e(2) by (rule split_sep_suffix)
  have ra: "resolve w (normalize p @ e)
             = foldl resolve_step (base_of w r)
                 (butlast (split_sep (normalize p)) @ [last (split_sep (normalize p)) @ e])"
    using base sf by (simp add: resolve_alt)
  show ?thesis
  proof (cases "last m = CHR ''/''")
    case True
    have bl: "butlast (split_sep (normalize p))
               = (if isAbsolute r then [[]] else []) @ normSegs r @ names"
      and la: "last (split_sep (normalize p)) = []"
      using True by (simp_all add: sp butlast_append)
    have "resolve w (normalize p @ e)
            = resolve_step (foldl resolve_step
                (foldl resolve_step (base_of w r) ((if isAbsolute r then [[]] else []) @ normSegs r))
                names) e"
      unfolding ra bl la by simp
    then have "resolve w (normalize p @ e)
            = resolve_step (foldl resolve_step (resolve w r) names) e"
      by (simp only: rr)
    also have "\<dots> = resolve_step (resolve w r @ names) e"
      using names by (simp add: foldl_resolve_names)
    also have "\<dots> = resolve w r @ names @ (if e = ''.'' then [] else [e])"
      using e by (simp add: resolve_step_def)
    finally show ?thesis using True by (simp add: j names_def)
  next
    case False
    have bl: "butlast (split_sep (normalize p))
               = (if isAbsolute r then [[]] else []) @ normSegs r @ butlast names"
      and la: "last (split_sep (normalize p)) = last names"
      using False nne by (simp_all add: sp butlast_append)
    have bn: "list_all nameSeg (butlast names)"
      using names by (auto simp: list_all_iff dest: in_set_butlastD)
    have ln: "nameSeg (last names @ e)"
      using names nne e(1) by (intro name_append_ext) (auto simp: list_all_iff)
    have "resolve w (normalize p @ e)
            = resolve_step (foldl resolve_step
                (foldl resolve_step (base_of w r) ((if isAbsolute r then [[]] else []) @ normSegs r))
                (butlast names)) (last names @ e)"
      unfolding ra bl la by simp
    then have "resolve w (normalize p @ e)
            = resolve_step (foldl resolve_step (resolve w r) (butlast names)) (last names @ e)"
      by (simp only: rr)
    also have "\<dots> = resolve w r @ butlast names @ [last names @ e]"
      using bn ln by (simp add: foldl_resolve_names resolve_step_nameSeg)
    finally show ?thesis using False by (simp add: j names_def)
  qed
qed

section \<open>What the library calls do to the tree\<close>

lemma extname_slash_free: "CHR ''/'' \<notin> set (extname m)"
proof -
  define xs where "xs = filter (\<lambda>w. w \<noteq> []) (split_sep m)"
  have "lastComponent m = [] \<or> lastComponent m \<in> set (split_sep m)"
  proof (cases xs)
    case Nil
    then show ?thesis by (simp add: lastComponent_def xs_def [symmetric])
  next
    case (Cons a as)
    then have "last xs \<in> set xs" by (intro last_in_set) simp
    then have "last xs \<in> set (split_sep m)" by (simp add: xs_def)
    moreover have "lastComponent m = last xs"
      using Cons by (simp add: lastComponent_def xs_def [symmetric])
    ultimately show ?thesis by simp
  qed
  then have b: "CHR ''/'' \<notin> set (lastComponent m)"
    using split_sep_slash_free by fastforce
  have "set (takeWhile (\<lambda>c. c \<noteq> CHR ''.'') (rev (lastComponent m))) \<subseteq> set (lastComponent m)"
    using set_takeWhileD by fastforce
  with b show ?thesis by (auto simp: extname_def Let_def)
qed

lemma extname_not_dotdot: "extname m \<noteq> ''..''"
proof
  assume h: "extname m = ''..''"
  define t where "t = takeWhile (\<lambda>c. c \<noteq> CHR ''.'') (rev (lastComponent m))"
  from h have "extname m \<noteq> []" by simp
  then have "extname m = CHR ''.'' # rev t"
    by (auto simp: extname_def Let_def t_def split: if_splits)
  with h have "rev t = ''.''" by simp
  then have "CHR ''.'' \<in> set t" by (metis list.set_intros(1) set_rev)
  then show False unfolding t_def by (auto dest: set_takeWhileD)
qed

lemma resolve_cong: "cwd w' = cwd w \<Longrightarrow> resolve w' p = resolve w p"
  by (simp add: resolve_def)

lemma obstructed_iff:
  "obstructed w k \<longleftrightarrow> (\<exists>q c. prefix q k \<and> lookup w q = Some (File c))"
proof -
  have "isFile w q \<longleftrightarrow> (\<exists>c. lookup w q = Some (File c))" for q
    by (cases "lookup w q") (auto simp: isFile_def split: node.splits)
  then show ?thesis by (auto simp: obstructed_def list_ex_iff)
qed

lemma map_of_dirs:
  "map_of (map (\<lambda>q. (q, Dir)) qs @ ns) q = (if q \<in> set qs then Some Dir else map_of ns q)"
  by (induction qs) auto

lemma shell_mkdir_p_effect:
  assumes "shell_mkdir_p f w = (r, w')"
  shows "cwd w' = cwd w" "calls w' = calls w @ [Mkdir f]"
    "r = (if obstructed w (resolve w f) then Inl (MkdirFailed f) else Inr ())"
    "lookup w' q = (if \<not> obstructed w (resolve w f) \<and> prefix q (resolve w f) then Some Dir
                    else lookup w q)"
proof -
  show "cwd w' = cwd w" "calls w' = calls w @ [Mkdir f]"
    "r = (if obstructed w (resolve w f) then Inl (MkdirFailed f) else Inr ())"
    using assms by (auto simp: shell_mkdir_p_def Let_def logCall_def split: if_splits)
  show "lookup w' q = (if \<not> obstructed w (resolve w f) \<and> prefix q (resolve w f) then Some Dir
                    else lookup w q)"
  proof (cases "obstructed w (resolve w f)")
    case True
    then show ?thesis using assms
      by (auto simp: shell_mkdir_p_def Let_def logCall_def lookup_def)
  next
    case False
    then have w': "nodes w' = map (\<lambda>q. (q, Dir))
                     (filter (\<lambda>q. lookup w q = None) (prefixes (resolve w f))) @ nodes w"
      using assms by (auto simp: shell_mkdir_p_def Let_def logCall_def)
    show ?thesis
    proof (cases "prefix q (resolve w f)")
      case p: True
      show ?thesis
      proof (cases "lookup w q")
        case None
        then have "q \<noteq> []" by (auto simp: lookup_def)
        with None p False show ?thesis by (simp add: lookup_def w' map_of_dirs del: map_of_append)
      next
        case (Some n)
        have "n = Dir"
        proof (cases n)
          case (File c)
          with Some p have "obstructed w (resolve w f)" by (auto simp: obstructed_iff)
          with False show ?thesis by simp
        qed simp
        with Some p False show ?thesis
          by (auto simp: lookup_def w' map_of_dirs simp del: map_of_append split: if_splits)
      qed
    next
      case np: False
      then show ?thesis by (simp add: lookup_def w' map_of_dirs del: map_of_append)
    qed
  qed
qed

lemma map_of_filter_key:
  "map_of (filter (\<lambda>(q, n). P q) ns) k = (if P k then map_of ns k else None)"
  by (induction ns) auto


lemma fs_writeFileSync_effect:
  assumes "fs_writeFileSync f c w = (r, w')"
  shows "cwd w' = cwd w" "calls w' = calls w @ [WriteFileSync f c]"
    "r = Inr () \<longleftrightarrow>
       f \<noteq> [] \<and> last f \<noteq> CHR ''/'' \<and> resolve w f \<noteq> []
       \<and> isDir w (butlast (resolve w f)) \<and> \<not> isDir w (resolve w f)"
    "lookup w' q = (if r = Inr () \<and> q = resolve w f then Some (File c) else lookup w q)"
proof -
  show "cwd w' = cwd w" "calls w' = calls w @ [WriteFileSync f c]"
    using assms
    by (auto simp: fs_writeFileSync_def Let_def logCall_def split: if_splits option.splits node.splits)
  show "r = Inr () \<longleftrightarrow>
       f \<noteq> [] \<and> last f \<noteq> CHR ''/'' \<and> resolve w f \<noteq> []
       \<and> isDir w (butlast (resolve w f)) \<and> \<not> isDir w (resolve w f)"
    using assms
    by (auto simp: fs_writeFileSync_def Let_def isDir_def split: if_splits option.splits node.splits)
  show "lookup w' q = (if r = Inr () \<and> q = resolve w f then Some (File c) else lookup w q)"
    using assms
    by (auto simp: fs_writeFileSync_def Let_def logCall_def lookup_def map_of_filter_key
        split: if_splits option.splits node.splits)
qed

lemma last_split_join:
  assumes dd: "''..'' \<notin> set (split_sep m)"
    and nm: "filter keptSeg (split_sep m) \<noteq> []"
    and ls: "last m \<noteq> CHR ''/''"
  shows "last (split_sep (join [r, m])) = last (filter keptSeg (split_sep m))"
proof -
  define names where "names = filter keptSeg (split_sep m)"
  have mne: "m \<noteq> []" using nm by (auto simp: keptSeg_def)
  define p where "p = (if r = [] then m else r @ CHR ''/'' # m)"
  have pne: "p \<noteq> []" using mne by (simp add: p_def)
  have j: "join [r, m] = normalize p" using mne by (simp add: join_def p_def)
  have "\<exists>pre. normSegs p = pre @ names"
  proof (cases "r = []")
    case True
    then have "normSegs p = [] @ names"
      using dd by (simp add: p_def normSegs_def norm_fold_no_dotdot names_def)
    then show ?thesis by blast
  next
    case False
    then have "normSegs p = normSegs r @ names"
      using normSegs_join [OF False dd] by (simp add: p_def names_def)
    then show ?thesis by blast
  qed
  then obtain pre where segs: "normSegs p = pre @ names" by blast
  have sne: "normSegs p \<noteq> []" using segs nm by (simp add: names_def)
  have lastp: "last p \<noteq> CHR ''/''" using mne ls by (simp add: p_def)
  have "split_sep (normalize p) = (if isAbsolute p then [[]] else []) @ (pre @ names)"
    using split_normalize(1) [OF pne sne] lastp by (simp add: segs)
  then have "last (split_sep (normalize p)) = last names"
    using nm by (simp add: names_def)
  then show ?thesis by (simp add: j names_def)
qed

lemma last_split_moduleFile:
  assumes dd: "''..'' \<notin> set (split_sep m)"
    and nm: "filter keptSeg (split_sep m) \<noteq> []"
    and ls: "last m \<noteq> CHR ''/''"
    and e: "CHR ''/'' \<notin> set e"
  shows "last (split_sep (join [r, m] @ e)) = last (filter keptSeg (split_sep m)) @ e"
  using last_split_join [OF dd nm ls, of r] by (simp add: split_sep_suffix [OF e])

section \<open>Sequencing and \<^verbatim>\<open>writeFile\<close>\<close>

lemma io_then_eq:
  "io_then m n w = (case m w of (Inl e, w') \<Rightarrow> (Inl e, w') | (Inr x, w') \<Rightarrow> n w')"
  by (simp add: io_then_def io_bind_def)

lemma io_then_Inr: "m w = (Inr (), w1) \<Longrightarrow> io_then m n w = n w1"
  by (simp add: io_then_eq)

lemma io_then_Inl: "m w = (Inl e, w1) \<Longrightarrow> io_then m n w = (Inl e, w1)"
  by (simp add: io_then_eq)



lemma writeFile_effect:
  assumes res: "writeFile p c w = (r, w')"
  shows "cwd w' = cwd w \<and> prefix (calls w) (calls w')
    \<and> prefix (calls w') (calls w @ [Mkdir (dirname p), WriteFileSync p c])
    \<and> (r = Inr () \<longrightarrow>
          calls w' = calls w @ [Mkdir (dirname p), WriteFileSync p c]
        \<and> (\<forall>q. lookup w' q =
              (if q = resolve w p then Some (File c)
               else if prefix q (resolve w (dirname p)) then Some Dir else lookup w q))
        \<and> \<not> obstructed w (resolve w (dirname p))
        \<and> \<not> prefix (resolve w p) (resolve w (dirname p))
        \<and> \<not> isDir w (resolve w p))"
proof -
  obtain r1 w1 where m: "shell_mkdir_p (dirname p) w = (r1, w1)"
    by (cases "shell_mkdir_p (dirname p) w")
  note me = shell_mkdir_p_effect [OF m]
  show ?thesis
  proof (cases r1)
    case (Inl e)
    with m res have "r = Inl e" "w' = w1"
      by (simp_all add: writeFile_def Let_def createFolder_def io_then_Inl)
    with me(1,2) show ?thesis by simp
  next
    case (Inr u)
    with m res have f: "fs_writeFileSync p c w1 = (r, w')"
      by (simp add: writeFile_def Let_def createFolder_def io_then_Inr)
    note fe = fs_writeFileSync_effect [OF f]
    have rs: "resolve w1 p = resolve w p" using me(1) by (rule resolve_cong)
    have ob: "\<not> obstructed w (resolve w (dirname p))" using me(3) Inr by (auto split: if_splits)
    have l1: "lookup w1 q = (if prefix q (resolve w (dirname p)) then Some Dir else lookup w q)" for q
      using me(4) [of q] ob by simp
    have np: "r = Inr () \<Longrightarrow> \<not> prefix (resolve w p) (resolve w (dirname p))"
      using fe(3) l1 [of "resolve w p"] by (auto simp: rs isDir_def)
    have lk: "r = Inr () \<Longrightarrow> lookup w' q =
              (if q = resolve w p then Some (File c)
               else if prefix q (resolve w (dirname p)) then Some Dir else lookup w q)" for q
      using fe(4) [of q] l1 [of q] by (simp add: rs)
    have nd: "r = Inr () \<Longrightarrow> \<not> isDir w (resolve w p)"
      using fe(3) l1 [of "resolve w p"] by (auto simp: rs isDir_def split: if_splits)
    show ?thesis
      using me(1,2) fe(1,2) ob np lk nd by auto
  qed
qed


section \<open>Creating the test folders\<close>

lemma createFolder_effect:
  assumes "createFolder f w = (r, w1)"
  shows "cwd w1 = cwd w" "calls w1 = calls w @ [Mkdir f]"
    "r = (if obstructed w (resolve w f) then Inl (MkdirFailed f) else Inr ())"
    "lookup w1 q = (if \<not> obstructed w (resolve w f) \<and> prefix q (resolve w f) then Some Dir
                    else lookup w q)"
  using shell_mkdir_p_effect [of f w r w1] assms by (simp_all add: createFolder_def)


lemma createFolder_succeeds:
  "\<not> obstructed w (resolve w f) \<Longrightarrow> fst (createFolder f w) = Inr ()"
  using createFolder_effect(3) [of f w "fst (createFolder f w)" "snd (createFolder f w)"]
  by simp





section \<open>Deleting folders and listing a directory\<close>









section \<open>Materialising modules\<close>

lemma moduleExt_props:
  "(if length (extname m) = 0 then ''.js'' else extname m) \<noteq> []"
  "CHR ''/'' \<notin> set (if length (extname m) = 0 then ''.js'' else extname m)"
  "(if length (extname m) = 0 then ''.js'' else extname m) \<noteq> ''..''"
  using extname_slash_free [of m] extname_not_dotdot [of m] by auto






lemma createModule_calls:
  assumes "createModule r m c w = (res, w')"
  shows "cwd w' = cwd w \<and> prefix (calls w) (calls w')
    \<and> prefix (calls w') (calls w @ moduleCalls r (m, c))
    \<and> (res = Inr () \<longrightarrow> calls w' = calls w @ moduleCalls r (m, c))"
proof -
  define f where "f = moduleFileName r m"
  obtain r1 w1 where m1: "createFolder (dirname f) w = (r1, w1)"
    by (cases "createFolder (dirname f) w")
  note e1 = createFolder_effect [OF m1]
  have mc: "moduleCalls r (m, c) = [Mkdir (dirname f), Mkdir (dirname f), WriteFileSync f c]"
    by (simp add: moduleCalls_def f_def Let_def)
  show ?thesis
  proof (cases r1)
    case (Inl e)
    with m1 assms have "res = Inl e" "w' = w1"
      by (simp_all add: createModule_def Let_def f_def [symmetric] io_then_Inl)
    with e1(1,2) show ?thesis by (simp add: mc)
  next
    case (Inr u)
    with m1 assms have m2: "writeFile f c w1 = (res, w')"
      by (simp add: createModule_def Let_def f_def [symmetric] io_then_Inr)
    from writeFile_effect [OF m2]
    have a: "cwd w' = cwd w1" and b: "prefix (calls w1) (calls w')"
      and c: "prefix (calls w') (calls w1 @ [Mkdir (dirname f), WriteFileSync f c])"
      and d: "res = Inr () \<longrightarrow> calls w' = calls w1 @ [Mkdir (dirname f), WriteFileSync f c]"
      by blast+
    have "prefix (calls w) (calls w1)" using e1(2) by simp
    then have "prefix (calls w) (calls w')" using b by (rule prefix_order.trans)
    then show ?thesis using a c d e1(1,2) by (simp add: mc)
  qed
qed







section \<open>What materialising a module can change\<close>

lemma resolve_dirname_step:
  assumes "last (split_sep p) \<noteq> []"
  shows "resolve w p = resolve_step (resolve w (dirname p)) (last (split_sep p))"
proof -
  define l where "l = last (split_sep p)"
  have l: "l \<noteq> []" "CHR ''/'' \<notin> set l"
    using assms last_split_slash_free by (auto simp: l_def)
  from split_sep_last_decomp [of p]
  have "(CHR ''/'' \<notin> set p \<and> split_sep p = [p])
        \<or> (\<exists>a. p = a @ CHR ''/'' # l \<and> split_sep p = split_sep a @ [l])"
    by (simp add: l_def)
  then have "resolve w p = resolve_step (resolve w (dirname p)) l"
  proof
    assume h: "CHR ''/'' \<notin> set p \<and> split_sep p = [p]"
    then have p: "p = l" by (simp add: l_def)
    then have pne: "p \<noteq> []" using l by auto
    have d: "dirname p = ''.''" using pne h by (simp add: dirname_no_slash)
    have nab: "\<not> isAbsolute p" using h pne by (cases p) (auto simp: isAbsolute_def)
    have "resolve w p = resolve_step (base_of w p) p"
      using h by (simp add: resolve_alt)
    moreover have "resolve w ''.'' = base_of w p"
      using nab by (auto simp: resolve_def base_of_def isAbsolute_def)
    ultimately show ?thesis using d p by simp
  next
    assume "\<exists>a. p = a @ CHR ''/'' # l \<and> split_sep p = split_sep a @ [l]"
    then obtain a where a: "p = a @ CHR ''/'' # l" and s: "split_sep p = split_sep a @ [l]"
      by blast
    show ?thesis
    proof (cases "a = []")
      case True
      then have d: "dirname p = ''/''" using a l dirname_root_child [of l] by simp
      have ab: "isAbsolute p" using a True by (simp add: isAbsolute_def)
      have "resolve w p = resolve_step [] l"
        using ab s True by (simp add: resolve_def)
      moreover have "resolve w ''/'' = []" by (simp add: resolve_def isAbsolute_def)
      ultimately show ?thesis using d by simp
    next
      case False
      have d: "dirname p = (if a = ''/'' then ''//'' else a)"
        using dirname_of_join [OF l False] a by simp
      have b: "base_of w p = base_of w a"
        using base_of_append [OF False, of w "CHR ''/'' # l"] a by simp
      have r: "resolve w p = resolve_step (resolve w a) l"
        by (simp add: resolve_alt s b)
      have "resolve w ''//'' = resolve w ''/''" by (simp add: resolve_def isAbsolute_def)
      then have "resolve w (dirname p) = resolve w a" using d by auto
      with r show ?thesis by simp
    qed
  qed
  then show ?thesis by (simp add: l_def)
qed

lemma moduleFile_dirname_inside:
  assumes r: "r \<noteq> []"
    and dd: "''..'' \<notin> set (split_sep m)"
    and nm: "filter keptSeg (split_sep m) \<noteq> []"
  shows "prefix (resolve w r) (resolve w (dirname (moduleFileName r m)))"
proof -
  define e where "e = (if length (extname m) = 0 then ''.js'' else extname m)"
  define f where "f = moduleFileName r m"
  define names where "names = filter keptSeg (split_sep m)"
  have fe: "f = join [r, m] @ e" by (simp add: f_def moduleFileName_def Let_def e_def)
  have e: "e \<noteq> []" "CHR ''/'' \<notin> set e" "e \<noteq> ''..''"
    unfolding e_def by (rule moduleExt_props)+
  have nne: "names \<noteq> []" using nm by (simp add: names_def)
  have names: "list_all nameSeg names" unfolding names_def using dd by (rule kept_not_dotdot_name)
  have sf: "split_sep f = butlast (split_sep (join [r, m])) @ [last (split_sep (join [r, m])) @ e]"
    unfolding fe using e(2) by (rule split_sep_suffix)
  then have lne: "last (split_sep f) \<noteq> []" using e(1) by simp
  note st = resolve_dirname_step [OF lne, of w]
  note rf = moduleFile_resolve [OF r dd nm e, of w, folded fe names_def]
  show ?thesis
  proof (cases "last m = CHR ''/''")
    case False
    have lf: "last (split_sep f) = last names @ e"
      unfolding fe names_def using dd nm False e(2) by (rule last_split_moduleFile)
    have nl: "nameSeg (last names @ e)"
      using names nne e(1) by (intro name_append_ext) (auto simp: list_all_iff)
    have "resolve w f = resolve w (dirname f) @ [last names @ e]"
      using st nl by (simp add: lf resolve_step_nameSeg)
    with rf False have "resolve w (dirname f) = resolve w r @ butlast names" by simp
    then show ?thesis by (simp add: f_def)
  next
    case True
    have mne: "m \<noteq> []" using nm by (auto simp: keptSeg_def)
    have "last (join [r, m]) = CHR ''/''"
    proof -
      have j: "join [r, m] = normalize (r @ CHR ''/'' # m)" using r mne by (simp add: join_def)
      have segs: "normSegs (r @ CHR ''/'' # m) \<noteq> []"
        using normSegs_join [OF r dd] nm by simp
      have "split_sep (normalize (r @ CHR ''/'' # m))
              = (if isAbsolute (r @ CHR ''/'' # m) then [[]] else [])
                @ normSegs (r @ CHR ''/'' # m) @ [[]]"
        using split_normalize(1) [OF _ segs] True mne by simp
      then have "last (split_sep (join [r, m])) = []" by (simp add: j)
      moreover have "join [r, m] \<noteq> []" by (simp add: j normalize_def Let_def)
      ultimately show ?thesis by (simp add: last_split_sep_Nil)
    qed
    then have "last (split_sep (join [r, m])) = []"
      using last_split_sep_Nil [of "join [r, m]"] by (cases "join [r, m] = []") auto
    then have lf: "last (split_sep f) = e" by (simp add: sf)
    show ?thesis
    proof (cases "e = ''.''")
      case dot: True
      have "resolve w f = resolve w (dirname f)" using st by (simp add: lf dot)
      with rf True dot have "resolve w (dirname f) = resolve w r @ names" by simp
      then show ?thesis by (simp add: f_def)
    next
      case False
      then have "nameSeg e" using e by (simp add: nameSeg_def)
      then have "resolve w f = resolve w (dirname f) @ [e]"
        using st by (simp add: lf resolve_step_nameSeg)
      with rf True False have "resolve w (dirname f) = resolve w r @ names" by simp
      then show ?thesis by (simp add: f_def)
    qed
  qed
qed

lemma shell_mkdir_p_changes:
  assumes "shell_mkdir_p f w = (r, w')" "lookup w' q \<noteq> lookup w q"
  shows "prefix q (resolve w f) \<and> lookup w q = None"
proof -
  note e = shell_mkdir_p_effect [OF assms(1)]
  from assms(2) e(4) [of q] have a: "\<not> obstructed w (resolve w f)" "prefix q (resolve w f)"
    and b: "lookup w q \<noteq> Some Dir"
    by (auto split: if_splits)
  have "lookup w q = None"
  proof (cases "lookup w q")
    case (Some n)
    with b obtain c where "n = File c" by (cases n) auto
    with Some a have False by (auto simp: obstructed_iff)
    then show ?thesis ..
  qed simp
  with a show ?thesis by simp
qed

lemma fs_writeFileSync_changes:
  assumes "fs_writeFileSync f c w = (r, w')" "lookup w' q \<noteq> lookup w q"
  shows "q = resolve w f"
  using fs_writeFileSync_effect(4) [OF assms(1), of q] assms(2) by (auto split: if_splits)

lemma createModule_changes:
  assumes "createModule r m c w = (res, w')" "lookup w' q \<noteq> lookup w q"
  shows "(prefix q (resolve w (dirname (moduleFileName r m))) \<and> lookup w q = None)
         \<or> q = resolve w (moduleFileName r m)"
proof -
  define f where "f = moduleFileName r m"
  obtain r1 w1 where m1: "shell_mkdir_p (dirname f) w = (r1, w1)"
    by (cases "shell_mkdir_p (dirname f) w")
  obtain r2 w2 where m2: "shell_mkdir_p (dirname f) w1 = (r2, w2)"
    by (cases "shell_mkdir_p (dirname f) w1")
  obtain r3 w3 where m3: "fs_writeFileSync f c w2 = (r3, w3)"
    by (cases "fs_writeFileSync f c w2")
  have c1: "cwd w1 = cwd w" and c2: "cwd w2 = cwd w"
    using shell_mkdir_p_effect(1) [OF m1] shell_mkdir_p_effect(1) [OF m2] by simp_all
  have rs: "resolve w1 p = resolve w p" "resolve w2 p = resolve w p" for p
    using c1 c2 by (auto intro: resolve_cong)
  have "w' = w1 \<or> w' = w2 \<or> w' = w3"
    using assms(1) m1 m2 m3
    by (cases r1; cases r2)
       (auto simp: createModule_def writeFile_def createFolder_def Let_def f_def [symmetric]
          io_then_eq)
  moreover have s1: "lookup w1 q \<noteq> lookup w q \<Longrightarrow> prefix q (resolve w (dirname f)) \<and> lookup w q = None"
    using shell_mkdir_p_changes [OF m1] by simp
  moreover have s2: "lookup w2 q \<noteq> lookup w1 q \<Longrightarrow> prefix q (resolve w (dirname f)) \<and> lookup w1 q = None"
    using shell_mkdir_p_changes [OF m2, of q] by (simp add: rs)
  moreover have s3: "lookup w3 q \<noteq> lookup w2 q \<Longrightarrow> q = resolve w f"
    using fs_writeFileSync_changes [OF m3, of q] by (simp add: rs)
  ultimately have "(prefix q (resolve w (dirname f)) \<and> lookup w q = None) \<or> q = resolve w f"
    using assms(2) by metis
  then show ?thesis by (simp add: f_def)
qed

lemma createModule_frame:
  assumes r: "r \<noteq> []"
    and dd: "''..'' \<notin> set (split_sep m)"
    and nm: "filter keptSeg (split_sep m) \<noteq> []"
    and ex: "list_all (\<lambda>q. lookup w q \<noteq> None) (prefixes (resolve w r))"
    and res: "createModule r m c w = (rs, w')"
    and ch: "lookup w' q \<noteq> lookup w q"
  shows "strict_prefix (resolve w r) q"
proof -
  let ?kr = "resolve w r"
  define e where "e = (if length (extname m) = 0 then ''.js'' else extname m)"
  have e: "e \<noteq> []" "CHR ''/'' \<notin> set e" "e \<noteq> ''..''"
    unfolding e_def by (rule moduleExt_props)+
  have f: "moduleFileName r m = join [r, m] @ e"
    by (simp add: moduleFileName_def Let_def e_def)
  have "\<exists>ys. ys \<noteq> [] \<and> resolve w (join [r, m] @ e) = ?kr @ ys"
    unfolding moduleFile_resolve [OF r dd nm e] using nm by auto
  then have kf: "strict_prefix ?kr (resolve w (moduleFileName r m))"
    by (auto simp: f strict_prefix_def prefix_def)
  have kd: "prefix ?kr (resolve w (dirname (moduleFileName r m)))"
    using r dd nm by (rule moduleFile_dirname_inside)
  have exq: "lookup w q' \<noteq> None" if "prefix q' ?kr" for q'
    using ex that by (simp add: list_all_iff)
  from createModule_changes [OF res ch] show ?thesis
  proof
    assume a: "prefix q (resolve w (dirname (moduleFileName r m))) \<and> lookup w q = None"
    then have "\<not> prefix q ?kr" using exq by blast
    moreover from a kd have "prefix q ?kr \<or> prefix ?kr q"
      using prefix_same_cases [of q "resolve w (dirname (moduleFileName r m))" ?kr] by blast
    ultimately show ?thesis by (auto simp: strict_prefix_def)
  next
    assume "q = resolve w (moduleFileName r m)"
    with kf show ?thesis by simp
  qed
qed

lemma io_each_createModule_frame:
  assumes r: "r \<noteq> []"
    and ok: "list_all (\<lambda>(m, c). ''..'' \<notin> set (split_sep m) \<and> filter keptSeg (split_sep m) \<noteq> []) es"
    and ex: "list_all (\<lambda>q. lookup w q \<noteq> None) (prefixes (resolve w r))"
    and res: "io_each (\<lambda>(moduleName, moduleContent). createModule r moduleName moduleContent) es w
                = (rs, w')"
    and ch: "lookup w' q \<noteq> lookup w q"
  shows "strict_prefix (resolve w r) q"
  using ok ex res ch
proof (induction es arbitrary: w)
  case Nil
  then show ?case by (simp add: io_return_def)
next
  case (Cons e es)
  obtain m c where e: "e = (m, c)" by (cases e)
  obtain r1 w1 where m1: "createModule r m c w = (r1, w1)" by (cases "createModule r m c w")
  have dd: "''..'' \<notin> set (split_sep m)" and nm: "filter keptSeg (split_sep m) \<noteq> []"
    using Cons.prems(1) by (simp_all add: e)
  have fr: "strict_prefix (resolve w r) q'" if "lookup w1 q' \<noteq> lookup w q'" for q'
    using r dd nm Cons.prems(2) m1 that by (rule createModule_frame)
  have c1: "cwd w1 = cwd w" using createModule_calls [OF m1] by blast
  have rs1: "resolve w1 r = resolve w r" using c1 by (rule resolve_cong)
  show ?case
  proof (cases r1)
    case (Inl x)
    with m1 Cons.prems(3) have "w' = w1" by (simp add: e io_then_Inl)
    with Cons.prems(4) fr show ?thesis by blast
  next
    case (Inr u)
    with m1 Cons.prems(3) have
      m2: "io_each (\<lambda>(moduleName, moduleContent). createModule r moduleName moduleContent) es w1
             = (rs, w')"
      by (simp add: e io_then_Inr)
    have ex1: "list_all (\<lambda>q. lookup w1 q \<noteq> None) (prefixes (resolve w1 r))"
      unfolding list_all_iff rs1
    proof
      fix q' assume q': "q' \<in> set (prefixes (resolve w r))"
      then have "\<not> strict_prefix (resolve w r) q'" by (auto simp: strict_prefix_def)
      with fr have "lookup w1 q' = lookup w q'" by blast
      with Cons.prems(2) q' show "lookup w1 q' \<noteq> None" by (simp add: list_all_iff)
    qed
    show ?thesis
    proof (cases "lookup w1 q = lookup w q")
      case True
      with Cons.prems(4) have "lookup w' q \<noteq> lookup w1 q" by simp
      from Cons.IH [OF _ ex1 m2 this] Cons.prems(1) show ?thesis by (simp add: rs1)
    next
      case False
      with fr show ?thesis by blast
    qed
  qed
qed

lemma createModules_frame:
  assumes r: "r \<noteq> []"
    and ok: "list_all (\<lambda>(m, c). ''..'' \<notin> set (split_sep m) \<and> filter keptSeg (split_sep m) \<noteq> [])
               (moduleEntries ms d)"
    and ex: "list_all (\<lambda>q. lookup w q \<noteq> None) (prefixes (resolve w r))"
    and ch: "lookup (snd (createModules r ms d w)) q \<noteq> lookup w q"
  shows "strict_prefix (resolve w r) q"
proof (cases ms)
  case NoModules
  with ch show ?thesis by (simp add: createModules_def io_return_def)
next
  case (ModuleNames names)
  then have "io_each (\<lambda>(moduleName, moduleContent). createModule r moduleName moduleContent)
               (moduleEntries ms d) w
             = (fst (createModules r ms d w), snd (createModules r ms d w))"
    by (simp add: createModules_def)
  from io_each_createModule_frame [OF r ok ex this ch] show ?thesis .
next
  case (ModuleMap props)
  then have "io_each (\<lambda>(moduleName, moduleContent). createModule r moduleName moduleContent)
               (moduleEntries ms d) w
             = (fst (createModules r ms d w), snd (createModules r ms d w))"
    by (simp add: createModules_def)
  from io_each_createModule_frame [OF r ok ex this ch] show ?thesis .
qed

section \<open>The plugin-name guard\<close>

text \<open>
  C1. For every plugin name that does not end with \<^verbatim>\<open>_TESTPLUGIN\<close> and every \<^verbatim>\<open>modules\<close>
  argument, \<^verbatim>\<open>createPluginModules\<close> throws the error with message
  ``Test plugin name has incorrect suffix'' at once. The world it leaves is the world it
  found: no library call was made, no node was added or changed, and the location of
  \<^verbatim>\<open>pluginsFolder/name\<close> holds what it held before (nothing, if there was nothing).
\<close>

theorem createPluginModules_bad_suffix:
  assumes "\<not> endsWith name ''_TESTPLUGIN''"
  shows "createPluginModules t name ms w
           = (Inl (Error ''Test plugin name has incorrect suffix''), w)
         \<and> calls (snd (createPluginModules t name ms w)) = calls w
         \<and> lookup (snd (createPluginModules t name ms w))
                  (resolve w (join [pluginsFolder t, name]))
             = lookup w (resolve w (join [pluginsFolder t, name]))"
  using assms by (simp add: createPluginModules_def testPluginSuffix_def io_throw_def)

theorem createPluginModules_bad_suffix_witness:
  "\<not> endsWith ''cache'' ''_TESTPLUGIN''
   \<and> createPluginModules
        \<lparr>appFolder = ''/proj/test/data/src'', publicFolder = ''/proj/test/data/public'',
         pluginsFolder = ''/proj/node_modules''\<rparr>
        ''cache'' (ModuleNames [''a/x''])
        \<lparr>cwd = ''/proj'', nodes = [([''proj''], Dir)], calls = []\<rparr>
       = (Inl (Error ''Test plugin name has incorrect suffix''),
          \<lparr>cwd = ''/proj'', nodes = [([''proj''], Dir)], calls = []\<rparr>)
   \<and> lookup \<lparr>cwd = ''/proj'', nodes = [([''proj''], Dir)], calls = []\<rparr>
        [''proj'', ''node_modules'', ''cache''] = None"
proof -
  have h: "\<not> endsWith ''cache'' ''_TESTPLUGIN''"
    by (simp add: endsWith_def)
  show ?thesis
    using h createPluginModules_bad_suffix [OF h,
        of "\<lparr>appFolder = ''/proj/test/data/src'', publicFolder = ''/proj/test/data/public'',
             pluginsFolder = ''/proj/node_modules''\<rparr>"
           "ModuleNames [''a/x'']"
           "\<lparr>cwd = ''/proj'', nodes = [([''proj''], Dir)], calls = []\<rparr>"]
    by (simp add: lookup_def)
qed

section \<open>No modules, no effect\<close>

text \<open>
  C10. With the \<^verbatim>\<open>modules\<close> argument absent, \<^verbatim>\<open>createModules\<close> returns normally and leaves
  the world exactly as it was, call log included: it performs no file-system operation.
  Hence \<^verbatim>\<open>createAppModules()\<close> changes nothing, and \<^verbatim>\<open>createPluginModules\<close> with a
  well-suffixed name and no modules does exactly what its scaffolding steps do.
\<close>

theorem createModules_absent:
  "createModules srcFolder NoModules defaultContent w = (Inr (), w)
   \<and> createAppModules t NoModules w = (Inr (), w)
   \<and> (endsWith name ''_TESTPLUGIN'' \<longrightarrow>
        createPluginModules t name NoModules w = pluginScaffold t name w)"
proof -
  have "io_then (pluginScaffold t name) (io_return ()) w = pluginScaffold t name w"
    by (cases "pluginScaffold t name w") (auto simp: io_defs split: sum.splits)
  then show ?thesis
    by (simp add: createModules_def createAppModules_def createPluginModules_def
        testPluginSuffix_def io_return_def)
qed

theorem createModules_absent_witness:
  "endsWith ''demo_TESTPLUGIN'' ''_TESTPLUGIN''
   \<and> createAppModules
        \<lparr>appFolder = ''/proj/test/data/src'', publicFolder = ''/proj/test/data/public'',
         pluginsFolder = ''/proj/node_modules''\<rparr>
        NoModules \<lparr>cwd = ''/proj'', nodes = [], calls = []\<rparr>
       = (Inr (), \<lparr>cwd = ''/proj'', nodes = [], calls = []\<rparr>)
   \<and> lookup (snd (createPluginModules
        \<lparr>appFolder = ''/proj/test/data/src'', publicFolder = ''/proj/test/data/public'',
         pluginsFolder = ''/proj/node_modules''\<rparr>
        ''demo_TESTPLUGIN'' NoModules \<lparr>cwd = ''/proj'', nodes = [], calls = []\<rparr>))
        [''proj'', ''node_modules'', ''demo_TESTPLUGIN'', ''src'', ''README'']
       = Some (File readmeText)"
proof -
  have h: "endsWith ''demo_TESTPLUGIN'' ''_TESTPLUGIN''"
    by (simp add: endsWith_def)
  have s: "lookup (snd (pluginScaffold
        \<lparr>appFolder = ''/proj/test/data/src'', publicFolder = ''/proj/test/data/public'',
         pluginsFolder = ''/proj/node_modules''\<rparr>
        ''demo_TESTPLUGIN'' \<lparr>cwd = ''/proj'', nodes = [], calls = []\<rparr>))
        [''proj'', ''node_modules'', ''demo_TESTPLUGIN'', ''src'', ''README'']
       = Some (File readmeText)"
    by code_simp
  show ?thesis
    using h s createModules_absent [of "''/x''" "''app''"
        "\<lparr>cwd = ''/proj'', nodes = [], calls = []\<rparr>"
        "\<lparr>appFolder = ''/proj/test/data/src'', publicFolder = ''/proj/test/data/public'',
             pluginsFolder = ''/proj/node_modules''\<rparr>" "''demo_TESTPLUGIN''"]
    by simp
qed

section \<open>The name of a generated file\<close>

text \<open>
  C5. The default extension \<^verbatim>\<open>.js\<close> is appended exactly when the module name carries no
  extension, and such a name is written at \<^verbatim>\<open>targetFolder/name.js\<close>. A name that carries
  an extension is meant to be kept as it is, but \<^verbatim>\<open>__createModule\<close> appends the extension
  it has just read from the name to the joined path, which already ends with it:
  \<^verbatim>\<open>foo.css\<close> is written at \<^verbatim>\<open>targetFolder/foo.css.css\<close>, not at \<^verbatim>\<open>targetFolder/foo.css\<close>.
  The older \<^verbatim>\<open>__createModule\<close> of \<^verbatim>\<open>src/index.js\<close> writes it at \<^verbatim>\<open>targetFolder/foo.css.js\<close>.
\<close>

theorem moduleFileName_doubles_extension:
  "moduleFileName ''/proj/test/data/src'' ''foo.css'' = ''/proj/test/data/src/foo.css.css''
   \<and> moduleFileName ''/proj/test/data/src'' ''foo.css'' \<noteq> ''/proj/test/data/src/foo.css''
   \<and> moduleFileName ''/proj/test/data/src'' ''foo'' = ''/proj/test/data/src/foo.js''
   \<and> moduleFileName_index ''/proj/test/data/app'' ''foo.css''
         = ''/proj/test/data/app/foo.css.js''
   \<and> map fst (nodes (snd (createAppModules
          \<lparr>appFolder = ''/proj/test/data/src'', publicFolder = ''/proj/test/data/public'',
           pluginsFolder = ''/proj/node_modules''\<rparr>
          (ModuleMap [(''foo.css'', ''body {}'')])
          \<lparr>cwd = ''/proj'', nodes = [([''proj'', ''test'', ''data'', ''src''], Dir)],
           calls = []\<rparr>)))
       = [[''proj'', ''test'', ''data'', ''src'', ''foo.css.css''],
          [''proj''], [''proj'', ''test''], [''proj'', ''test'', ''data''],
          [''proj'', ''test'', ''data'', ''src'']]"
  by code_simp

section \<open>The coroutine bridge\<close>

lemma co_single_yield:
  "co (YieldPromise p Return Throw) = p"
  by (cases p) simp_all





section \<open>Writing a file\<close>




section \<open>The test folders\<close>



section \<open>Where a generated file is written\<close>

text \<open>
  C2, as amended. For every non-empty target folder and every module name that has no
  \<^verbatim>\<open>..\<close> segment and at least one segment other than the empty one and \<^verbatim>\<open>.\<close>, the file
  path computed by \<^verbatim>\<open>__createModule\<close> resolves strictly inside the target folder, and the
  folder it creates for the file is the target folder or lies inside it. In particular a
  name that starts with the separator stays inside, because \<^verbatim>\<open>path.join\<close> concatenates.
  When every name of the batch is of this kind and the target folder exists together with
  its ancestors, every location that \<^verbatim>\<open>createModules\<close> changes lies strictly inside the
  target folder.
\<close>

theorem moduleFileName_inside:
  assumes "srcFolder \<noteq> []"
    and "''..'' \<notin> set (split_sep moduleName)"
    and "filter keptSeg (split_sep moduleName) \<noteq> []"
  shows "inside w srcFolder (moduleFileName srcFolder moduleName)
    \<and> prefix (resolve w srcFolder) (resolve w (dirname (moduleFileName srcFolder moduleName)))
    \<and> (list_all (\<lambda>(m, c). ''..'' \<notin> set (split_sep m) \<and> filter keptSeg (split_sep m) \<noteq> [])
          (moduleEntries ms d)
        \<and> list_all (\<lambda>q. lookup w q \<noteq> None) (prefixes (resolve w srcFolder)) \<longrightarrow>
        (\<forall>q. lookup (snd (createModules srcFolder ms d w)) q \<noteq> lookup w q
               \<longrightarrow> strict_prefix (resolve w srcFolder) q))"
proof -
  define e where "e = (if length (extname moduleName) = 0 then ''.js'' else extname moduleName)"
  have f: "moduleFileName srcFolder moduleName = join [srcFolder, moduleName] @ e"
    by (simp add: moduleFileName_def Let_def e_def)
  have e: "e \<noteq> []" "CHR ''/'' \<notin> set e" "e \<noteq> ''..''"
    unfolding e_def by (rule moduleExt_props)+
  have "\<exists>ys. ys \<noteq> [] \<and> resolve w (join [srcFolder, moduleName] @ e) = resolve w srcFolder @ ys"
    unfolding moduleFile_resolve [OF assms e] using assms(3) by auto
  then have a: "inside w srcFolder (moduleFileName srcFolder moduleName)"
    by (auto simp: inside_def f strict_prefix_def prefix_def)
  have b: "prefix (resolve w srcFolder) (resolve w (dirname (moduleFileName srcFolder moduleName)))"
    using assms by (rule moduleFile_dirname_inside)
  show ?thesis
    using a b createModules_frame [OF assms(1), of ms d w] by blast
qed

theorem moduleFileName_inside_witness:
  "''/data/app'' \<noteq> []
   \<and> ''..'' \<notin> set (split_sep ''views/./index.pug'')
   \<and> filter keptSeg (split_sep ''views/./index.pug'') \<noteq> []
   \<and> list_all (\<lambda>(m, c). ''..'' \<notin> set (split_sep m) \<and> filter keptSeg (split_sep m) \<noteq> [])
        (moduleEntries (ModuleNames [''views/./index.pug'', ''/etc/x'']) ''app'')
   \<and> list_all (\<lambda>q. lookup \<lparr>cwd = ''/proj'',
          nodes = [([''data''], Dir), ([''data'', ''app''], Dir), ([''etc''], Dir)], calls = []\<rparr> q
            \<noteq> None) (prefixes [''data'', ''app''])
   \<and> moduleFileName ''/data/app'' ''views/./index.pug'' = ''/data/app/views/index.pug.pug''
   \<and> inside \<lparr>cwd = ''/proj'',
          nodes = [([''data''], Dir), ([''data'', ''app''], Dir), ([''etc''], Dir)], calls = []\<rparr>
        ''/data/app'' ''/data/app/views/index.pug.pug''
   \<and> lookup (snd (createModules ''/data/app'' (ModuleNames [''views/./index.pug'', ''/etc/x''])
          ''app'' \<lparr>cwd = ''/proj'',
          nodes = [([''data''], Dir), ([''data'', ''app''], Dir), ([''etc''], Dir)], calls = []\<rparr>))
        [''etc'', ''x.js'']
       = lookup \<lparr>cwd = ''/proj'',
          nodes = [([''data''], Dir), ([''data'', ''app''], Dir), ([''etc''], Dir)], calls = []\<rparr>
          [''etc'', ''x.js'']"
proof -
  let ?w = "\<lparr>cwd = ''/proj'',
          nodes = [([''data''], Dir), ([''data'', ''app''], Dir), ([''etc''], Dir)], calls = []\<rparr>"
  let ?ms = "ModuleNames [''views/./index.pug'', ''/etc/x'']"
  have kr: "resolve ?w ''/data/app'' = [''data'', ''app'']" by code_simp
  have h1: "''/data/app'' \<noteq> []" by simp
  have h2: "''..'' \<notin> set (split_sep ''views/./index.pug'')" by code_simp
  have h3: "filter keptSeg (split_sep ''views/./index.pug'') \<noteq> []" by code_simp
  have h4: "list_all (\<lambda>(m, c). ''..'' \<notin> set (split_sep m) \<and> filter keptSeg (split_sep m) \<noteq> [])
        (moduleEntries ?ms ''app'')"
    by code_simp
  have h5: "list_all (\<lambda>q. lookup ?w q \<noteq> None) (prefixes [''data'', ''app''])" by code_simp
  have n: "moduleFileName ''/data/app'' ''views/./index.pug'' = ''/data/app/views/index.pug.pug''"
    by code_simp
  have o: "\<not> strict_prefix [''data'', ''app''] [''etc'', ''x.js'']" by simp
  note T = moduleFileName_inside [OF h1 h2 h3, of ?w ?ms "''app''", unfolded kr n]
  from T have i: "inside ?w ''/data/app'' ''/data/app/views/index.pug.pug''" by blast
  from T h4 h5 o have u: "lookup (snd (createModules ''/data/app'' ?ms ''app'' ?w)) [''etc'', ''x.js'']
       = lookup ?w [''etc'', ''x.js'']"
    by blast
  show ?thesis using h1 h2 h3 h4 h5 n i u by blast
qed

text \<open>
  C2 fails as stated: nothing checks the name, and \<^verbatim>\<open>path.join\<close> resolves \<^verbatim>\<open>..\<close> segments.
  The module name \<^verbatim>\<open>../x\<close> under \<^verbatim>\<open>/data/app\<close> is written at \<^verbatim>\<open>/data/x.js\<close>, a sibling of
  the target folder.
\<close>

theorem moduleFileName_escapes:
  "moduleFileName ''/data/app'' ''../x'' = ''/data/x.js''
   \<and> \<not> inside \<lparr>cwd = ''/proj'', nodes = [([''data''], Dir), ([''data'', ''app''], Dir)], calls = []\<rparr>
          ''/data/app'' (moduleFileName ''/data/app'' ''../x'')
   \<and> fst (createModules ''/data/app'' (ModuleMap [(''../x'', ''1'')]) ''app''
        \<lparr>cwd = ''/proj'', nodes = [([''data''], Dir), ([''data'', ''app''], Dir)], calls = []\<rparr>)
       = Inr ()
   \<and> nodes (snd (createModules ''/data/app'' (ModuleMap [(''../x'', ''1'')]) ''app''
        \<lparr>cwd = ''/proj'', nodes = [([''data''], Dir), ([''data'', ''app''], Dir)], calls = []\<rparr>))
       = [([''data'', ''x.js''], File ''1''), ([''data''], Dir), ([''data'', ''app''], Dir)]"
  by code_simp

section \<open>Tearing the fixtures down\<close>



section \<open>One module at a time\<close>




end
